theory Spec2Isabelle
  imports Main "HOL-Library.Sublist"
begin

section \<open>The Hugo process manager (internal/hugo/manager.go)\<close>

text \<open>
  A shallow embedding of the manager of the Hugo server process: its status, its capped
  log buffer, its subscriber channels and the operations \<open>Start\<close>, \<open>Stop\<close>,
  \<open>Restart\<close>, \<open>GetLogs\<close>, \<open>Subscribe\<close> and \<open>addLog\<close>.

  The manager's fields are a record that every operation takes and returns. What the
  operating system answers (the clock, whether the pipes and the process could be
  created, whether the kill succeeded) is an argument of the operation; what the
  operation asks of the operating system and of the Go scheduler (launch a process, kill
  it, sleep, start a goroutine) is returned as a list of effects, in program order.
  Go's \<open>error\<close> values are their messages; \<open>nil\<close> is \<open>None\<close>.
\<close>

subsection \<open>Substring search: \<open>contains\<close> and \<open>containsAt\<close>\<close>

text \<open>
  Go strings are byte sequences, as \<open>string\<close> is here. The loop of \<open>containsAt\<close> runs
  \<open>i\<close> from 0 while \<open>i <= len(s)-len(substr)\<close>, a comparison of signed integers, and
  returns at the first \<open>i\<close> where the slice \<open>s[i:i+len(substr)]\<close> equals \<open>substr\<close>.
\<close>

function containsAt_loop :: "string \<Rightarrow> string \<Rightarrow> nat \<Rightarrow> bool" where
  "containsAt_loop s substr i =
     (if int i \<le> int (length s) - int (length substr) then
        (if take (length substr) (drop i s) = substr then True
         else containsAt_loop s substr (Suc i))
      else False)"
  by pat_completeness auto
termination
  by (relation "measure (\<lambda>(s, substr, i). Suc (length s) - i)") auto

declare containsAt_loop.simps [simp del]

definition containsAt :: "string \<Rightarrow> string \<Rightarrow> bool" where
  "containsAt s substr = containsAt_loop s substr 0"

definition contains :: "string \<Rightarrow> string \<Rightarrow> bool" where
  "contains s substr =
     (length s \<ge> length substr \<and> (s = substr \<or> (length s > 0 \<and> containsAt s substr)))"

text \<open>The specification's side: \<open>substr\<close> occurs in \<open>s\<close> as a contiguous block.\<close>

definition occurs_in :: "string \<Rightarrow> string \<Rightarrow> bool" where
  "occurs_in substr s = (\<exists>ps ss. s = ps @ substr @ ss)"

subsection \<open>Data\<close>

datatype Status = StatusStopped | StatusStarting | StatusRunning | StatusError

text \<open>A log entry; \<open>Time\<close> is the reading of the clock (\<open>time.Now()\<close>).\<close>

record LogEntry =
  Time :: nat
  Message :: string
  Type :: string

text \<open>\<open>config.HugoConfig\<close>. Go's \<open>int\<close> is an \<open>int\<close> here: no arithmetic is done on the port.\<close>

record HugoConfig =
  Port :: int
  AutoStart :: bool
  AdditionalArgs :: "string list"
  DisableFastRender :: bool

text \<open>
  The part of \<open>exec.Cmd\<close> the manager uses: the program name and the arguments given to
  \<open>exec.Command\<close>, the working directory, and the handle of the launched process
  (\<open>None\<close> for \<open>nil\<close>, before a successful \<open>cmd.Start()\<close>).
\<close>

record Cmd =
  Name :: string
  Args :: "string list"
  Dir :: string
  Process :: "nat option"

text \<open>
  A buffered channel of log entries: its identity (channels are compared by reference
  in \<open>Unsubscribe\<close>), its capacity and the entries queued in it, oldest first.
\<close>

record chan =
  chan_id :: nat
  chan_cap :: nat
  chan_buf :: "LogEntry list"

text \<open>
  The \<open>Manager\<close> struct. The three mutexes are no part of the state of a sequential
  run and are not fields here. \<open>maxLogs\<close> is a Go \<open>int\<close> that only \<open>NewManager\<close>
  assigns (1000); it is a \<open>nat\<close> here.
\<close>

record Manager =
  projectDir :: string
  config :: HugoConfig
  cmd :: "Cmd option"
  status :: Status
  statusMsg :: string
  logs :: "LogEntry list"
  subscribers :: "chan list"
  maxLogs :: nat

text \<open>What the operating system answers during one call.\<close>

record OS =
  now :: nat  \<comment> \<open>\<open>time.Now()\<close>, in milliseconds\<close>
  stdoutPipe :: "string option"  \<comment> \<open>the error of \<open>cmd.StdoutPipe()\<close>\<close>
  stderrPipe :: "string option"  \<comment> \<open>the error of \<open>cmd.StderrPipe()\<close>\<close>
  procStart :: "string + nat"  \<comment> \<open>\<open>cmd.Start()\<close>: its error, or the new process\<close>
  procKill :: "string option"  \<comment> \<open>the error of \<open>cmd.Process.Kill()\<close>\<close>

text \<open>The goroutines \<open>Start\<close> launches, and what an operation asks of its environment.\<close>

datatype goroutine = StdoutReader | StderrReader | ExitWaiter | GraceTimer

datatype effect =
    Launch Cmd  \<comment> \<open>\<open>cmd.Start()\<close> created the process\<close>
  | Go goroutine  \<comment> \<open>a \<open>go\<close> statement\<close>
  | Kill nat  \<comment> \<open>\<open>Process.Kill()\<close> was called on the process\<close>
  | Sleep nat  \<comment> \<open>\<open>time.Sleep\<close>, in milliseconds\<close>
  | Close nat  \<comment> \<open>\<open>close(ch)\<close>\<close>

subsection \<open>Formatting the port: \<open>fmt.Sprintf("%d", n)\<close>\<close>

definition digit_char :: "nat \<Rightarrow> char" where
  "digit_char d = ''0123456789'' ! d"

fun nat_decimal :: "nat \<Rightarrow> string" where
  "nat_decimal n =
     (if n < 10 then [digit_char n] else nat_decimal (n div 10) @ [digit_char (n mod 10)])"

declare nat_decimal.simps [simp del]

definition sprint_d :: "int \<Rightarrow> string" where
  "sprint_d i = (if i < 0 then CHR ''-'' # nat_decimal (nat (- i)) else nat_decimal (nat i))"

subsection \<open>Construction, status and the log buffer\<close>

definition NewManager :: "string \<Rightarrow> HugoConfig \<Rightarrow> Manager" where
  "NewManager dir cfg =
     \<lparr>projectDir = dir, config = cfg, cmd = None, status = StatusStopped, statusMsg = [],
      logs = [], subscribers = [], maxLogs = 1000\<rparr>"

definition setStatus :: "Manager \<Rightarrow> Status \<Rightarrow> string \<Rightarrow> Manager" where
  "setStatus m st msg = m\<lparr>status := st, statusMsg := msg\<rparr>"

definition GetStatus :: "Manager \<Rightarrow> Status \<times> string" where
  "GetStatus m = (status m, statusMsg m)"

definition GetPort :: "Manager \<Rightarrow> int" where
  "GetPort m = Port (config m)"

text \<open>
  A send on a buffered channel proceeds when the buffer has room; otherwise it would
  block (\<open>None\<close>). \<open>select { case ch <- entry: default: }\<close> takes the send when it can
  proceed and the empty \<open>default\<close> branch otherwise.
\<close>

definition chan_send :: "chan \<Rightarrow> LogEntry \<Rightarrow> chan option" where
  "chan_send ch entry =
     (if length (chan_buf ch) < chan_cap ch then Some (ch\<lparr>chan_buf := chan_buf ch @ [entry]\<rparr>)
      else None)"

definition select_send_default :: "chan \<Rightarrow> LogEntry \<Rightarrow> chan" where
  "select_send_default ch entry = (case chan_send ch entry of Some ch' \<Rightarrow> ch' | None \<Rightarrow> ch)"

fun broadcast :: "chan list \<Rightarrow> LogEntry \<Rightarrow> chan list" where
  "broadcast [] entry = []"
| "broadcast (ch # chs) entry = select_send_default ch entry # broadcast chs entry"

definition addLog :: "Manager \<Rightarrow> nat \<Rightarrow> string \<Rightarrow> string \<Rightarrow> Manager" where
  "addLog m t message logType =
     (let entry = \<lparr>Time = t, Message = message, Type = logType\<rparr>;
          logs1 = logs m @ [entry];
          logs2 = (if length logs1 > maxLogs m then drop (length logs1 - maxLogs m) logs1
                   else logs1)
      in m\<lparr>logs := logs2, subscribers := broadcast (subscribers m) entry\<rparr>)"

text \<open>A run of appends, each with its clock reading, message and type.\<close>

fun addLogs :: "Manager \<Rightarrow> (nat \<times> string \<times> string) list \<Rightarrow> Manager" where
  "addLogs m [] = m"
| "addLogs m ((t, message, logType) # rest) = addLogs (addLog m t message logType) rest"

definition entry_of :: "nat \<times> string \<times> string \<Rightarrow> LogEntry" where
  "entry_of a = (case a of (t, message, logType) \<Rightarrow> \<lparr>Time = t, Message = message, Type = logType\<rparr>)"

text \<open>
  \<open>copy(dst, src)\<close> overwrites the first \<open>min(len(dst), len(src))\<close> elements of \<open>dst\<close>;
  \<open>make([]LogEntry, n)\<close> is \<open>n\<close> zero entries.
\<close>

definition copy_into :: "'a list \<Rightarrow> 'a list \<Rightarrow> 'a list" where
  "copy_into dst src = take (length dst) src @ drop (length src) dst"

definition zeroEntry :: LogEntry where
  "zeroEntry = \<lparr>Time = 0, Message = [], Type = []\<rparr>"

definition GetLogs :: "Manager \<Rightarrow> int \<Rightarrow> LogEntry list" where
  "GetLogs m limit =
     (let n = int (length (logs m));
          limit1 = (if limit \<le> 0 \<or> limit > n then n else limit);
          start = n - limit1;
          start1 = (if start < 0 then 0 else start);
          result = replicate (nat limit1) zeroEntry
      in copy_into result (drop (nat start1) (logs m)))"

subsection \<open>Subscriptions\<close>

text \<open>\<open>cid\<close> is the identity of the channel that \<open>make\<close> allocates.\<close>

definition Subscribe :: "Manager \<Rightarrow> nat \<Rightarrow> chan \<times> Manager" where
  "Subscribe m cid =
     (let ch = \<lparr>chan_id = cid, chan_cap = 100, chan_buf = []\<rparr>
      in (ch, m\<lparr>subscribers := subscribers m @ [ch]\<rparr>))"

fun remove_sub :: "chan list \<Rightarrow> nat \<Rightarrow> chan list \<times> effect list" where
  "remove_sub [] cid = ([], [])"
| "remove_sub (sub # subs) cid =
     (if chan_id sub = cid then (subs, [Close cid])
      else (case remove_sub subs cid of (subs', fx) \<Rightarrow> (sub # subs', fx)))"

definition Unsubscribe :: "Manager \<Rightarrow> nat \<Rightarrow> Manager \<times> effect list" where
  "Unsubscribe m cid =
     (case remove_sub (subscribers m) cid of (subs', fx) \<Rightarrow> (m\<lparr>subscribers := subs'\<rparr>, fx))"

subsection \<open>Start, Stop, Restart\<close>

definition hugo_args :: "HugoConfig \<Rightarrow> string list" where
  "hugo_args cfg =
     (let args = [''server''];
          args = args @ [''--port'', sprint_d (Port cfg)];
          args = (if DisableFastRender cfg then args @ [''--disableFastRender''] else args)
      in args @ AdditionalArgs cfg)"

definition Start :: "Manager \<Rightarrow> OS \<Rightarrow> string option \<times> Manager \<times> effect list" where
  "Start m os =
     (if status m = StatusRunning \<or> status m = StatusStarting
      then (Some ''Hugo is already running'', m, [])
      else
        let m1 = m\<lparr>status := StatusStarting, statusMsg := ''Starting Hugo server...''\<rparr>;
            m2 = addLog m1 (now os) ''Starting Hugo server...'' ''system'';
            c = \<lparr>Name = ''hugo'', Args = hugo_args (config m2), Dir = projectDir m2,
                 Process = None\<rparr>;
            m3 = m2\<lparr>cmd := Some c\<rparr>
        in case stdoutPipe os of
             Some err \<Rightarrow> (Some err, setStatus m3 StatusError (''Failed to get stdout: '' @ err), [])
           | None \<Rightarrow>
          (case stderrPipe os of
             Some err \<Rightarrow> (Some err, setStatus m3 StatusError (''Failed to get stderr: '' @ err), [])
           | None \<Rightarrow>
          (case procStart os of
             Inl err \<Rightarrow> (Some err, setStatus m3 StatusError (''Failed to start Hugo: '' @ err), [])
           | Inr pid \<Rightarrow>
               (None, m3\<lparr>cmd := Some (c\<lparr>Process := Some pid\<rparr>)\<rparr>,
                [Launch (c\<lparr>Process := Some pid\<rparr>), Go StdoutReader, Go StderrReader,
                 Go ExitWaiter, Go GraceTimer]))))"

definition Stop :: "Manager \<Rightarrow> OS \<Rightarrow> string option \<times> Manager \<times> effect list" where
  "Stop m os =
     (if status m = StatusStopped then (Some ''Hugo is not running'', m, [])
      else
        let m1 = addLog m (now os) ''Stopping Hugo server...'' ''system''
        in case cmd m1 of
             None \<Rightarrow> (None, setStatus m1 StatusStopped [], [])
           | Some c \<Rightarrow>
          (case Process c of
             None \<Rightarrow> (None, setStatus m1 StatusStopped [], [])
           | Some pid \<Rightarrow>
          (case procKill os of
             Some err \<Rightarrow>
               (Some err, addLog m1 (now os) (''Error stopping Hugo: '' @ err) ''system'',
                [Kill pid])
           | None \<Rightarrow> (None, setStatus m1 StatusStopped [], [Kill pid]))))"

text \<open>
  \<open>Restart\<close> sleeps 500 milliseconds between a successful \<open>Stop\<close> and \<open>Start\<close>; the
  clock that \<open>Start\<close> reads is that much later.
\<close>

definition Restart :: "Manager \<Rightarrow> OS \<Rightarrow> string option \<times> Manager \<times> effect list" where
  "Restart m os =
     (let m1 = addLog m (now os) ''Restarting Hugo server...'' ''system''
      in if status m1 \<noteq> StatusStopped then
           (case Stop m1 os of
              (Some err, m2, fx) \<Rightarrow> (Some err, m2, fx)
            | (None, m2, fx) \<Rightarrow>
                (case Start m2 (os\<lparr>now := now os + 500\<rparr>) of
                   (r, m3, fx') \<Rightarrow> (r, m3, fx @ [Sleep 500] @ fx')))
         else Start m1 os)"

subsection \<open>The goroutines\<close>

text \<open>
  Each body below runs under the manager's locks for its writes, so one firing is one
  step on the manager. \<open>streamLogs\<close> handles the lines the scanner yields, in order;
  the exit waiter gets the error of \<open>cmd.Wait()\<close>; the grace timer fires once, two
  seconds after \<open>Start\<close>.
\<close>

definition running_msg :: "Manager \<Rightarrow> string" where
  "running_msg m = ''Running on port '' @ sprint_d (Port (config m))"

fun streamLogs :: "Manager \<Rightarrow> nat \<Rightarrow> string \<Rightarrow> string list \<Rightarrow> Manager" where
  "streamLogs m t logType [] = m"
| "streamLogs m t logType (line # rest) =
     (let m1 = addLog m t line logType;
          m2 = (if logType = ''stdout'' \<and>
                   (contains line ''Web Server is available'' \<or> contains line ''Serving pages from'')
                then setStatus m1 StatusRunning (running_msg m1) else m1)
      in streamLogs m2 t logType rest)"

definition exitWaiter :: "Manager \<Rightarrow> nat \<Rightarrow> string option \<Rightarrow> Manager" where
  "exitWaiter m t werr =
     (case werr of
        Some err \<Rightarrow>
          setStatus (addLog m t (''Hugo exited with error: '' @ err) ''system'') StatusError err
      | None \<Rightarrow> setStatus (addLog m t ''Hugo server stopped'' ''system'') StatusStopped [])"

definition graceTimer :: "Manager \<Rightarrow> Manager" where
  "graceTimer m =
     (if status m = StatusStarting
      then m\<lparr>status := StatusRunning, statusMsg := running_msg m\<rparr>
      else m)"

subsection \<open>Reading results, and the inputs of the examples\<close>

text \<open>The three parts of what \<open>Start\<close>, \<open>Stop\<close> and \<open>Restart\<close> return.\<close>

definition err_of :: "string option \<times> Manager \<times> effect list \<Rightarrow> string option" where
  "err_of r = fst r"

definition state_of :: "string option \<times> Manager \<times> effect list \<Rightarrow> Manager" where
  "state_of r = fst (snd r)"

definition effects_of :: "string option \<times> Manager \<times> effect list \<Rightarrow> effect list" where
  "effects_of r = snd (snd r)"

text \<open>The process \<open>Stop\<close> would kill: \<open>m.cmd != nil && m.cmd.Process != nil\<close>.\<close>

definition process_of :: "Manager \<Rightarrow> nat option" where
  "process_of m = (case cmd m of None \<Rightarrow> None | Some c \<Rightarrow> Process c)"

text \<open>
  The Hugo section of \<open>config.DefaultConfig()\<close>, a manager built from it, and three
  answers of the operating system: all is well; the \<open>hugo\<close> binary is missing; the
  process to kill has already been reaped.
\<close>

definition default_hugo_config :: HugoConfig where
  "default_hugo_config =
     \<lparr>Port = 1313, AutoStart = True, AdditionalArgs = [''--bind'', ''0.0.0.0''],
      DisableFastRender = True\<rparr>"

definition fresh_manager :: Manager where
  "fresh_manager = NewManager ''/site'' default_hugo_config"

definition os_ok :: OS where
  "os_ok =
     \<lparr>now = 0, stdoutPipe = None, stderrPipe = None, procStart = Inr 4242, procKill = None\<rparr>"

definition os_no_binary :: OS where
  "os_no_binary = os_ok\<lparr>procStart := Inl ''executable file not found in PATH''\<rparr>"

definition os_kill_fails :: OS where
  "os_kill_fails = os_ok\<lparr>procKill := Some ''os: process already finished''\<rparr>"

text \<open>
  Three states the manager reaches: after a successful \<open>Start\<close>; after a \<open>Start\<close> that
  found no binary; and after the started process has exited with status 1 and the exit
  waiter has run.
\<close>

definition started :: Manager where
  "started = state_of (Start fresh_manager os_ok)"

definition failed_start :: Manager where
  "failed_start = state_of (Start fresh_manager os_no_binary)"

definition crashed :: Manager where
  "crashed = exitWaiter started 9 (Some ''exit status 1'')"

text \<open>
  A subscriber whose queue is full, and a manager with that subscriber and a new one.
\<close>

definition lagging :: chan where
  "lagging = \<lparr>chan_id = 1, chan_cap = 100, chan_buf = replicate 100 zeroEntry\<rparr>"

definition watched :: Manager where
  "watched = snd (Subscribe (fresh_manager\<lparr>subscribers := [lagging]\<rparr>) 2)"

subsection \<open>The log buffer in memory: slices and their arrays\<close>

text \<open>
  \<open>logs\<close> above is the content of the buffer. In the program \<open>m.logs\<close> is a slice: a
  window of \<open>sl_len\<close> elements, starting at \<open>sl_off\<close>, onto an array that has room for
  \<open>sl_cap\<close> elements from there. Two slices alias when they share the array. The memory
  is the arrays allocated so far, by address, and the address of the next allocation.
\<close>

record slice =
  sl_array :: nat
  sl_off :: nat
  sl_len :: nat
  sl_cap :: nat

record memory =
  arrays :: "nat \<Rightarrow> LogEntry list"
  next_array :: nat

definition slice_read :: "memory \<Rightarrow> slice \<Rightarrow> LogEntry list" where
  "slice_read h s = take (sl_len s) (drop (sl_off s) (arrays h (sl_array s)))"

text \<open>\<open>make([]LogEntry, n, c)\<close>: a new array of \<open>c\<close> zero entries.\<close>

definition make_slice :: "memory \<Rightarrow> nat \<Rightarrow> nat \<Rightarrow> slice \<times> memory" where
  "make_slice h n c =
     (\<lparr>sl_array = next_array h, sl_off = 0, sl_len = n, sl_cap = c\<rparr>,
      h\<lparr>arrays := (arrays h)(next_array h := replicate c zeroEntry),
        next_array := Suc (next_array h)\<rparr>)"

text \<open>\<open>s[i:]\<close>, for \<open>i \<le> len(s)\<close>: the same array, \<open>i\<close> elements further.\<close>

definition slice_from :: "slice \<Rightarrow> nat \<Rightarrow> slice" where
  "slice_from s i = s\<lparr>sl_off := sl_off s + i, sl_len := sl_len s - i, sl_cap := sl_cap s - i\<rparr>"

text \<open>\<open>copy(dst, src)\<close> writes the first \<open>min(len(dst), len(src))\<close> elements of \<open>src\<close> into the array of \<open>dst\<close>.\<close>

definition write_at :: "'a list \<Rightarrow> nat \<Rightarrow> 'a list \<Rightarrow> 'a list" where
  "write_at a i xs = take i a @ xs @ drop (i + length xs) a"

definition slice_copy :: "memory \<Rightarrow> slice \<Rightarrow> slice \<Rightarrow> memory" where
  "slice_copy h dst src =
     (let n = min (sl_len dst) (sl_len src);
          xs = take n (slice_read h src)
      in h\<lparr>arrays := (arrays h)(sl_array dst := write_at (arrays h (sl_array dst)) (sl_off dst) xs)\<rparr>)"

text \<open>
  \<open>append(s, e)\<close> writes into the array of \<open>s\<close> when it has room beyond the window, and
  otherwise allocates a larger array and copies the window there. How much larger is the
  runtime's choice: \<open>spare\<close> gives the room left after the new element, from the old
  capacity.
\<close>

definition slice_append :: "(nat \<Rightarrow> nat) \<Rightarrow> memory \<Rightarrow> slice \<Rightarrow> LogEntry \<Rightarrow> slice \<times> memory" where
  "slice_append spare h s e =
     (if sl_len s < sl_cap s then
        (s\<lparr>sl_len := Suc (sl_len s)\<rparr>,
         h\<lparr>arrays := (arrays h)(sl_array s := (arrays h (sl_array s))[sl_off s + sl_len s := e])\<rparr>)
      else
        (\<lparr>sl_array = next_array h, sl_off = 0, sl_len = Suc (sl_len s),
          sl_cap = Suc (sl_len s) + spare (sl_cap s)\<rparr>,
         h\<lparr>arrays := (arrays h)(next_array h :=
                slice_read h s @ [e] @ replicate (spare (sl_cap s)) zeroEntry),
           next_array := Suc (next_array h)\<rparr>))"

text \<open>
  The buffer's part of \<open>NewManager\<close>, \<open>addLog\<close> and \<open>GetLogs\<close>, on the slice \<open>m.logs\<close>
  and the memory: the same statements as above, with the slice operations spelled out.
\<close>

definition NewManager_mem :: "memory \<Rightarrow> slice \<times> memory" where
  "NewManager_mem h = make_slice h 0 1000"

definition addLog_mem :: "(nat \<Rightarrow> nat) \<Rightarrow> nat \<Rightarrow> slice \<times> memory \<Rightarrow> LogEntry \<Rightarrow> slice \<times> memory" where
  "addLog_mem spare maxL sh entry =
     (case slice_append spare (snd sh) (fst sh) entry of
        (s1, h1) \<Rightarrow>
          if sl_len s1 > maxL then (slice_from s1 (sl_len s1 - maxL), h1) else (s1, h1))"

fun addLogs_mem :: "(nat \<Rightarrow> nat) \<Rightarrow> nat \<Rightarrow> slice \<times> memory \<Rightarrow> LogEntry list \<Rightarrow> slice \<times> memory" where
  "addLogs_mem spare maxL sh [] = sh"
| "addLogs_mem spare maxL sh (entry # rest) =
     addLogs_mem spare maxL (addLog_mem spare maxL sh entry) rest"

definition GetLogs_mem :: "slice \<times> memory \<Rightarrow> int \<Rightarrow> slice \<times> memory" where
  "GetLogs_mem sh limit =
     (let s = fst sh; h = snd sh;
          n = int (sl_len s);
          limit1 = (if limit \<le> 0 \<or> limit > n then n else limit);
          start = n - limit1;
          start1 = (if start < 0 then 0 else start)
      in case make_slice h (nat limit1) (nat limit1) of
           (result, h1) \<Rightarrow> (result, slice_copy h1 result (slice_from s (nat start1))))"

text \<open>
  A slice is in order when its array is allocated and its window and capacity lie inside
  the array.
\<close>

definition slice_ok :: "memory \<Rightarrow> slice \<Rightarrow> bool" where
  "slice_ok h s =
     (sl_array s < next_array h \<and> sl_len s \<le> sl_cap s
      \<and> sl_off s + sl_cap s \<le> length (arrays h (sl_array s)))"

text \<open>The memory before anything is allocated.\<close>

definition empty_memory :: memory where
  "empty_memory = \<lparr>arrays = (\<lambda>a. []), next_array = 0\<rparr>"

text \<open>
  Three lines logged by a new manager, as a list and in memory; a snapshot of
  the last two of them taken in memory; and one more line logged after the snapshot.
  The runtime of the example doubles an array that is full.
\<close>

definition three_lines :: "(nat \<times> string \<times> string) list" where
  "three_lines = [(1, ''a'', ''stdout''), (2, ''b'', ''stderr''), (3, ''c'', ''stdout'')]"

definition logged :: Manager where
  "logged = addLogs fresh_manager three_lines"

definition logged_mem :: "slice \<times> memory" where
  "logged_mem =
     addLogs_mem (\<lambda>c. c) 1000 (NewManager_mem empty_memory) (map entry_of three_lines)"

definition snapshot_mem :: "slice \<times> memory" where
  "snapshot_mem = GetLogs_mem (fst logged_mem, snd logged_mem) 2"

definition later_mem :: "slice \<times> memory" where
  "later_mem =
     addLogs_mem (\<lambda>c. c) 1000 (fst logged_mem, snd snapshot_mem)
       (map entry_of [(4, ''d'', ''stdout'')])"

section \<open>Theorems\<close>

subsection \<open>What \<open>addLog\<close> and \<open>setStatus\<close> touch\<close>

lemma addLog_untouched [simp]:
  "status (addLog m t message logType) = status m"
  "statusMsg (addLog m t message logType) = statusMsg m"
  "cmd (addLog m t message logType) = cmd m"
  "config (addLog m t message logType) = config m"
  "projectDir (addLog m t message logType) = projectDir m"
  "maxLogs (addLog m t message logType) = maxLogs m"
  by (simp_all add: addLog_def Let_def)

lemma addLog_subscribers [simp]:
  "subscribers (addLog m t message logType)
     = broadcast (subscribers m) \<lparr>Time = t, Message = message, Type = logType\<rparr>"
  by (simp add: addLog_def Let_def)

lemma addLog_logs:
  "logs (addLog m t message logType)
     = drop (Suc (length (logs m)) - maxLogs m)
         (logs m @ [\<lparr>Time = t, Message = message, Type = logType\<rparr>])"
  by (simp add: addLog_def Let_def)

lemma addLog_status_update [simp]:
  "addLog (m\<lparr>status := st\<rparr>) t message logType = (addLog m t message logType)\<lparr>status := st\<rparr>"
  "addLog (m\<lparr>statusMsg := msg\<rparr>) t message logType
     = (addLog m t message logType)\<lparr>statusMsg := msg\<rparr>"
  by (simp_all add: addLog_def Let_def)

lemma setStatus_fields [simp]:
  "status (setStatus m st msg) = st"
  "statusMsg (setStatus m st msg) = msg"
  "cmd (setStatus m st msg) = cmd m"
  "config (setStatus m st msg) = config m"
  "projectDir (setStatus m st msg) = projectDir m"
  "maxLogs (setStatus m st msg) = maxLogs m"
  "logs (setStatus m st msg) = logs m"
  "subscribers (setStatus m st msg) = subscribers m"
  by (simp_all add: setStatus_def)

lemma process_of_simps [simp]:
  "process_of (addLog m t message logType) = process_of m"
  "process_of (setStatus m st msg) = process_of m"
  by (simp_all add: process_of_def)

lemma sprint_d_1313: "sprint_d 1313 = ''1313''"
  by (simp add: sprint_d_def nat_decimal.simps digit_char_def)

lemmas example_defs = fresh_manager_def NewManager_def default_hugo_config_def os_ok_def
  os_no_binary_def os_kill_fails_def

lemmas result_defs = err_of_def state_of_def effects_of_def

subsection \<open>Theorems about the substring search\<close>

lemma containsAt_loop_iff:
  "containsAt_loop s substr i \<longleftrightarrow>
     (\<exists>j. i \<le> j \<and> j + length substr \<le> length s \<and> take (length substr) (drop j s) = substr)"
proof (induction s substr i rule: containsAt_loop.induct)
  case (1 s substr i)
  show ?case
  proof (cases "int i \<le> int (length s) - int (length substr)")
    case False
    then have "containsAt_loop s substr i = False"
      by (subst containsAt_loop.simps) simp
    moreover from False have "\<And>j. i \<le> j \<Longrightarrow> \<not> j + length substr \<le> length s"
      by linarith
    ultimately show ?thesis by blast
  next
    case inrange: True
    show ?thesis
    proof (cases "take (length substr) (drop i s) = substr")
      case True
      with inrange have "containsAt_loop s substr i"
        by (subst containsAt_loop.simps) simp
      moreover from inrange have "i + length substr \<le> length s" by linarith
      ultimately show ?thesis using True by blast
    next
      case False
      with inrange have step: "containsAt_loop s substr i = containsAt_loop s substr (Suc i)"
        by (subst containsAt_loop.simps) simp
      have "(\<exists>j. i \<le> j \<and> j + length substr \<le> length s \<and> take (length substr) (drop j s) = substr)
         \<longleftrightarrow> (\<exists>j. Suc i \<le> j \<and> j + length substr \<le> length s \<and> take (length substr) (drop j s) = substr)"
        using False by (metis Suc_leD Suc_leI le_neq_implies_less)
      with step "1.IH"[OF inrange False] show ?thesis by simp
    qed
  qed
qed

lemma occurs_in_iff_window:
  "occurs_in substr s \<longleftrightarrow>
     (\<exists>j. j + length substr \<le> length s \<and> take (length substr) (drop j s) = substr)"
proof
  assume "occurs_in substr s"
  then obtain ps ss where "s = ps @ substr @ ss" by (auto simp: occurs_in_def)
  then have "length ps + length substr \<le> length s \<and> take (length substr) (drop (length ps) s) = substr"
    by simp
  then show "\<exists>j. j + length substr \<le> length s \<and> take (length substr) (drop j s) = substr"
    by blast
next
  assume "\<exists>j. j + length substr \<le> length s \<and> take (length substr) (drop j s) = substr"
  then obtain j where j: "j + length substr \<le> length s" "take (length substr) (drop j s) = substr"
    by blast
  have "s = take j s @ drop j s"
    by (rule append_take_drop_id [symmetric])
  also have "drop j s = take (length substr) (drop j s) @ drop (length substr) (drop j s)"
    by (rule append_take_drop_id [symmetric])
  finally have "s = take j s @ take (length substr) (drop j s) @ drop (length substr) (drop j s)" .
  with j show "occurs_in substr s"
    unfolding occurs_in_def by metis
qed

lemma containsAt_iff_occurs: "containsAt s substr \<longleftrightarrow> occurs_in substr s"
  by (simp add: containsAt_def containsAt_loop_iff occurs_in_iff_window)

text \<open>
  Claim C10. For all strings \<open>s\<close> and \<open>substr\<close>, \<open>contains s substr\<close> is true exactly
  when \<open>substr\<close> occurs in \<open>s\<close> as a contiguous substring: \<open>s\<close> is some prefix, then
  \<open>substr\<close>, then some suffix. This is also the library's \<open>sublist\<close> predicate, and the
  empty string occurs in every string.
\<close>

theorem contains_is_substring:
  "(contains s substr \<longleftrightarrow> occurs_in substr s)
   \<and> (contains s substr \<longleftrightarrow> sublist substr s)
   \<and> contains s []"
proof -
  have len: "occurs_in substr s \<Longrightarrow> length substr \<le> length s"
    by (auto simp: occurs_in_def)
  have self: "occurs_in s s"
    unfolding occurs_in_def by (metis append_Nil append_Nil2)
  have nonempty: "length substr \<le> length s \<Longrightarrow> s \<noteq> substr \<Longrightarrow> 0 < length s"
    by (cases s) auto
  have main: "contains s substr \<longleftrightarrow> occurs_in substr s"
    unfolding contains_def containsAt_iff_occurs
    using len self nonempty by blast
  have lib: "occurs_in substr s \<longleftrightarrow> sublist substr s"
    by (simp add: occurs_in_def sublist_def)
  have "occurs_in [] s"
    unfolding occurs_in_def by (metis append_Nil)
  then have "contains s []"
    unfolding contains_def containsAt_iff_occurs by (cases s) auto
  with main lib show ?thesis by simp
qed

theorem contains_is_substring_witness:
  "contains ''Web Server is available at http://localhost:1313/'' ''Web Server is available''
   \<and> occurs_in ''Web Server is available'' ''Web Server is available at http://localhost:1313/''
   \<and> \<not> contains ''hugo v0.120'' ''Serving pages from''
   \<and> \<not> occurs_in ''Serving pages from'' ''hugo v0.120''"
proof -
  have a: "contains ''Web Server is available at http://localhost:1313/'' ''Web Server is available''"
    by (simp add: contains_def containsAt_def containsAt_loop.simps)
  have b: "\<not> contains ''hugo v0.120'' ''Serving pages from''"
    by (simp add: contains_def)
  from a b
    contains_is_substring [of "''Web Server is available at http://localhost:1313/''" "''Web Server is available''"]
    contains_is_substring [of "''hugo v0.120''" "''Serving pages from''"]
  show ?thesis by blast
qed

subsection \<open>The example states\<close>

lemma started_facts:
  "status started = StatusStarting"
  "statusMsg started = ''Starting Hugo server...''"
  "process_of started = Some 4242"
  "config started = default_hugo_config"
  "projectDir started = ''/site''"
  "err_of (Start fresh_manager os_ok) = None"
  by (simp_all add: started_def Start_def Let_def process_of_def example_defs result_defs)

lemma failed_start_facts:
  "status failed_start = StatusError"
  "statusMsg failed_start = ''Failed to start Hugo: executable file not found in PATH''"
  "process_of failed_start = None"
  "err_of (Start fresh_manager os_no_binary) = Some ''executable file not found in PATH''"
  "effects_of (Start fresh_manager os_no_binary) = []"
  by (simp_all add: failed_start_def Start_def Let_def process_of_def example_defs result_defs)

lemma crashed_facts:
  "status crashed = StatusError"
  "statusMsg crashed = ''exit status 1''"
  "process_of crashed = Some 4242"
  by (simp_all add: crashed_def exitWaiter_def started_facts)

lemma os_facts:
  "procKill os_ok = None" "procKill os_kill_fails = Some ''os: process already finished''"
  "procStart os_no_binary = Inl ''executable file not found in PATH''"
  "stdoutPipe os_no_binary = None" "stderrPipe os_no_binary = None"
  "procStart os_ok = Inr 4242" "stdoutPipe os_ok = None" "stderrPipe os_ok = None"
  "now os_ok = 0" "now os_kill_fails = 0" "now os_no_binary = 0"
  by (simp_all add: example_defs)

subsection \<open>Rejected calls\<close>

text \<open>
  Claim C1. In every state whose status is \<open>running\<close> or \<open>starting\<close>, \<open>Start\<close> returns
  the error "Hugo is already running", the manager is the one it was given (status,
  message, log buffer, subscribers and all other fields) and nothing is asked of the
  environment: no process is launched. In every state whose status is \<open>stopped\<close>,
  \<open>Stop\<close> returns the error "Hugo is not running", again with the manager unchanged and
  no effect.
\<close>

theorem start_stop_rejection:
  "(status m = StatusRunning \<or> status m = StatusStarting \<longrightarrow>
      Start m os = (Some ''Hugo is already running'', m, []))
   \<and> (status m = StatusStopped \<longrightarrow> Stop m os = (Some ''Hugo is not running'', m, []))"
  by (simp add: Start_def Stop_def)

theorem start_stop_rejection_witness:
  "status started = StatusStarting
   \<and> Start started os_ok = (Some ''Hugo is already running'', started, [])
   \<and> status (graceTimer started) = StatusRunning
   \<and> Start (graceTimer started) os_ok = (Some ''Hugo is already running'', graceTimer started, [])
   \<and> status fresh_manager = StatusStopped
   \<and> Stop fresh_manager os_ok = (Some ''Hugo is not running'', fresh_manager, [])"
proof -
  have r: "status (graceTimer started) = StatusRunning"
    by (simp add: graceTimer_def started_facts)
  have f: "status fresh_manager = StatusStopped"
    by (simp add: example_defs)
  from r f started_facts(1)
    start_stop_rejection [of started os_ok]
    start_stop_rejection [of "graceTimer started" os_ok]
    start_stop_rejection [of fresh_manager os_ok]
  show ?thesis by simp
qed

subsection \<open>The grace timer\<close>

text \<open>
  Claim C9. When the grace timer fires in a state whose status is \<open>starting\<close>, the status
  becomes \<open>running\<close> and the message names the configured port; in every other state the
  timer changes nothing. In particular it changes nothing after the exit waiter has run,
  and nothing after the reader of stdout has seen one of the two startup banners. A
  successful \<open>Start\<close> leaves the status \<open>starting\<close> and launches the timer.
\<close>

theorem grace_timer_guard:
  "(status m = StatusStarting \<longrightarrow>
      graceTimer m = m\<lparr>status := StatusRunning,
                        statusMsg := ''Running on port '' @ sprint_d (Port (config m))\<rparr>)
   \<and> (status m \<noteq> StatusStarting \<longrightarrow> graceTimer m = m)
   \<and> graceTimer (exitWaiter m t werr) = exitWaiter m t werr
   \<and> (contains line ''Web Server is available'' \<or> contains line ''Serving pages from'' \<longrightarrow>
        graceTimer (streamLogs m t ''stdout'' [line]) = streamLogs m t ''stdout'' [line])
   \<and> (err_of (Start m os) = None \<longrightarrow>
        Go GraceTimer \<in> set (effects_of (Start m os))
        \<and> status (state_of (Start m os)) = StatusStarting)"
proof -
  have a: "status m = StatusStarting \<longrightarrow>
      graceTimer m = m\<lparr>status := StatusRunning,
                        statusMsg := ''Running on port '' @ sprint_d (Port (config m))\<rparr>"
    by (simp add: graceTimer_def running_msg_def)
  have b: "status m \<noteq> StatusStarting \<longrightarrow> graceTimer m = m"
    by (simp add: graceTimer_def)
  have c: "graceTimer (exitWaiter m t werr) = exitWaiter m t werr"
    by (cases werr) (simp_all add: graceTimer_def exitWaiter_def)
  have d: "contains line ''Web Server is available'' \<or> contains line ''Serving pages from'' \<longrightarrow>
        graceTimer (streamLogs m t ''stdout'' [line]) = streamLogs m t ''stdout'' [line]"
    by (simp add: graceTimer_def Let_def)
  have e: "err_of (Start m os) = None \<longrightarrow>
        Go GraceTimer \<in> set (effects_of (Start m os))
        \<and> status (state_of (Start m os)) = StatusStarting"
    by (cases "stdoutPipe os"; cases "stderrPipe os"; cases "procStart os")
       (simp_all add: Start_def Let_def result_defs)
  from a b c d e show ?thesis by blast
qed

theorem grace_timer_guard_witness:
  "status started = StatusStarting
   \<and> GetStatus (graceTimer started) = (StatusRunning, ''Running on port 1313'')
   \<and> status failed_start \<noteq> StatusStarting
   \<and> graceTimer failed_start = failed_start
   \<and> contains ''Web Server is available at //localhost:1313/'' ''Web Server is available''
   \<and> graceTimer (streamLogs started 7 ''stdout'' [''Web Server is available at //localhost:1313/''])
       = streamLogs started 7 ''stdout'' [''Web Server is available at //localhost:1313/'']
   \<and> err_of (Start fresh_manager os_ok) = None
   \<and> Go GraceTimer \<in> set (effects_of (Start fresh_manager os_ok))"
proof -
  have p: "Port (config started) = 1313"
    by (simp add: started_facts default_hugo_config_def)
  have c: "contains ''Web Server is available at //localhost:1313/'' ''Web Server is available''"
    by (simp add: contains_def containsAt_def containsAt_loop.simps)
  have g: "GetStatus (graceTimer started) = (StatusRunning, ''Running on port 1313'')"
    using grace_timer_guard [of started 0 None "[]" os_ok] p
    by (simp add: GetStatus_def started_facts sprint_d_1313)
  have f: "graceTimer failed_start = failed_start"
    using grace_timer_guard [of failed_start 0 None "[]" os_ok]
    by (simp add: failed_start_facts)
  have l: "graceTimer (streamLogs started 7 ''stdout'' [''Web Server is available at //localhost:1313/''])
       = streamLogs started 7 ''stdout'' [''Web Server is available at //localhost:1313/'']"
    using grace_timer_guard [of started 7 None "''Web Server is available at //localhost:1313/''" os_ok] c
    by blast
  have t: "Go GraceTimer \<in> set (effects_of (Start fresh_manager os_ok))"
    using grace_timer_guard [of fresh_manager 0 None "[]" os_ok] started_facts(6)
    by blast
  from g f l t c started_facts(1,6) failed_start_facts(1) show ?thesis by simp
qed

subsection \<open>The command line\<close>

text \<open>
  Claim C8. Whenever \<open>Start\<close> is not rejected, the command it builds is the program
  \<open>hugo\<close> with the arguments \<open>server\<close>, \<open>--port\<close> and the configured port in decimal, then
  \<open>--disableFastRender\<close> exactly when the configuration's flag is set, then the
  additional arguments of the configuration as they are and in their order; its working
  directory is the manager's project directory. The arguments depend on the configuration
  only. When \<open>Start\<close> succeeds this command is the one launched, and no other command is
  ever launched.
\<close>

theorem start_builds_command:
  assumes "status m \<noteq> StatusRunning" and "status m \<noteq> StatusStarting"
  shows "\<exists>c. cmd (state_of (Start m os)) = Some c
           \<and> Name c = ''hugo''
           \<and> Args c = [''server'', ''--port'', sprint_d (Port (config m))]
                 @ (if DisableFastRender (config m) then [''--disableFastRender''] else [])
                 @ AdditionalArgs (config m)
           \<and> Dir c = projectDir m
           \<and> (err_of (Start m os) = None \<longrightarrow> Launch c \<in> set (effects_of (Start m os)))
           \<and> (\<forall>c'. Launch c' \<in> set (effects_of (Start m os)) \<longrightarrow> c' = c)"
  using assms
  by (cases "stdoutPipe os"; cases "stderrPipe os"; cases "procStart os")
     (simp_all add: Start_def Let_def result_defs hugo_args_def)

theorem start_builds_command_witness:
  "status fresh_manager \<noteq> StatusRunning \<and> status fresh_manager \<noteq> StatusStarting
   \<and> cmd (state_of (Start fresh_manager os_ok))
       = Some \<lparr>Name = ''hugo'',
               Args = [''server'', ''--port'', ''1313'', ''--disableFastRender'', ''--bind'', ''0.0.0.0''],
               Dir = ''/site'', Process = Some 4242\<rparr>
   \<and> Launch \<lparr>Name = ''hugo'',
               Args = [''server'', ''--port'', ''1313'', ''--disableFastRender'', ''--bind'', ''0.0.0.0''],
               Dir = ''/site'', Process = Some 4242\<rparr> \<in> set (effects_of (Start fresh_manager os_ok))"
proof -
  have f: "status fresh_manager \<noteq> StatusRunning" "status fresh_manager \<noteq> StatusStarting"
    by (simp_all add: example_defs)
  have cfg: "config fresh_manager = default_hugo_config" "projectDir fresh_manager = ''/site''"
    by (simp_all add: example_defs)
  from start_builds_command [OF f, of os_ok] obtain c where
    c: "cmd (state_of (Start fresh_manager os_ok)) = Some c" "Name c = ''hugo''"
       "Args c = [''server'', ''--port'', sprint_d (Port (config fresh_manager))]
                 @ (if DisableFastRender (config fresh_manager) then [''--disableFastRender''] else [])
                 @ AdditionalArgs (config fresh_manager)"
       "Dir c = projectDir fresh_manager"
       "err_of (Start fresh_manager os_ok) = None \<longrightarrow> Launch c \<in> set (effects_of (Start fresh_manager os_ok))"
    by (elim exE conjE) (rule that)
  have p: "Process c = Some 4242"
    using c(1) started_facts(3) by (simp add: started_def process_of_def)
  have "c = \<lparr>Name = ''hugo'',
               Args = [''server'', ''--port'', ''1313'', ''--disableFastRender'', ''--bind'', ''0.0.0.0''],
               Dir = ''/site'', Process = Some 4242\<rparr>"
    using c(2,3,4) p by (simp add: cfg default_hugo_config_def sprint_d_1313)
  with c(1,5) started_facts(6) f show ?thesis by simp
qed

subsection \<open>A failed launch\<close>

text \<open>
  Claim C4. When \<open>Start\<close> is not rejected, both pipes are created and \<open>cmd.Start()\<close>
  fails with an error \<open>e\<close>, then \<open>Start\<close> returns \<open>e\<close>, the status is \<open>error\<close> with the
  message "Failed to start Hugo: " followed by the message of \<open>e\<close>, and \<open>Start\<close> asks
  nothing more of its environment: no reader of stdout or stderr, no exit waiter and no
  timer is started, no process handle exists and nothing is tried again.
\<close>

theorem start_spawn_failure:
  assumes "status m \<noteq> StatusRunning" and "status m \<noteq> StatusStarting"
    and "stdoutPipe os = None" and "stderrPipe os = None" and "procStart os = Inl e"
  shows "err_of (Start m os) = Some e
         \<and> GetStatus (state_of (Start m os)) = (StatusError, ''Failed to start Hugo: '' @ e)
         \<and> effects_of (Start m os) = []
         \<and> process_of (state_of (Start m os)) = None"
  using assms by (simp add: Start_def Let_def result_defs GetStatus_def process_of_def)

theorem start_spawn_failure_witness:
  "status fresh_manager \<noteq> StatusRunning \<and> status fresh_manager \<noteq> StatusStarting
   \<and> stdoutPipe os_no_binary = None \<and> stderrPipe os_no_binary = None
   \<and> procStart os_no_binary = Inl ''executable file not found in PATH''
   \<and> err_of (Start fresh_manager os_no_binary) = Some ''executable file not found in PATH''
   \<and> GetStatus (state_of (Start fresh_manager os_no_binary))
       = (StatusError, ''Failed to start Hugo: executable file not found in PATH'')
   \<and> effects_of (Start fresh_manager os_no_binary) = []"
proof -
  have f: "status fresh_manager \<noteq> StatusRunning" "status fresh_manager \<noteq> StatusStarting"
    by (simp_all add: example_defs)
  from f os_facts(3,4,5) start_spawn_failure [OF f os_facts(4,5,3)]
  show ?thesis by simp
qed

subsection \<open>Stop\<close>

lemma Stop_no_process:
  assumes "status m \<noteq> StatusStopped" and "process_of m = None"
  shows "Stop m os
     = (None, setStatus (addLog m (now os) ''Stopping Hugo server...'' ''system'') StatusStopped [], [])"
  using assms by (cases "cmd m") (auto simp: Stop_def Let_def process_of_def)

lemma Stop_killed:
  assumes "status m \<noteq> StatusStopped" and "process_of m = Some pid" and "procKill os = None"
  shows "Stop m os
     = (None, setStatus (addLog m (now os) ''Stopping Hugo server...'' ''system'') StatusStopped [],
        [Kill pid])"
  using assms by (cases "cmd m") (auto simp: Stop_def Let_def process_of_def)

lemma Stop_kill_failed:
  assumes "status m \<noteq> StatusStopped" and "process_of m = Some pid" and "procKill os = Some e"
  shows "Stop m os
     = (Some e,
        addLog (addLog m (now os) ''Stopping Hugo server...'' ''system'') (now os)
          (''Error stopping Hugo: '' @ e) ''system'',
        [Kill pid])"
  using assms by (cases "cmd m") (auto simp: Stop_def Let_def process_of_def)

text \<open>
  Claim C5, as the code has it. In every state whose status is not \<open>stopped\<close>, \<open>Stop\<close>
  appends the system entry "Stopping Hugo server...". When the manager holds a process
  handle, \<open>Stop\<close> kills that process, once and with no other signal before it; when it
  holds none (as after a failed launch), it kills nothing. When nothing was to be killed
  or the kill succeeded, the status becomes \<open>stopped\<close> with an empty message and no error
  is returned. When the kill fails, \<open>Stop\<close> appends a second system entry with the
  error, returns the error, and status and message are what they were before the call.
\<close>

theorem stop_outcomes:
  assumes "status m \<noteq> StatusStopped"
  shows "(process_of m = None \<longrightarrow>
            effects_of (Stop m os) = [] \<and> err_of (Stop m os) = None
            \<and> GetStatus (state_of (Stop m os)) = (StatusStopped, [])
            \<and> logs (state_of (Stop m os))
                = logs (addLog m (now os) ''Stopping Hugo server...'' ''system''))
       \<and> (\<forall>pid. process_of m = Some pid \<longrightarrow>
            effects_of (Stop m os) = [Kill pid]
            \<and> (procKill os = None \<longrightarrow>
                  err_of (Stop m os) = None
                  \<and> GetStatus (state_of (Stop m os)) = (StatusStopped, [])
                  \<and> logs (state_of (Stop m os))
                      = logs (addLog m (now os) ''Stopping Hugo server...'' ''system''))
            \<and> (\<forall>e. procKill os = Some e \<longrightarrow>
                  err_of (Stop m os) = Some e
                  \<and> GetStatus (state_of (Stop m os)) = GetStatus m
                  \<and> logs (state_of (Stop m os))
                      = logs (addLog (addLog m (now os) ''Stopping Hugo server...'' ''system'')
                                (now os) (''Error stopping Hugo: '' @ e) ''system'')))"
proof -
  have none: "process_of m = None \<longrightarrow>
            effects_of (Stop m os) = [] \<and> err_of (Stop m os) = None
            \<and> GetStatus (state_of (Stop m os)) = (StatusStopped, [])
            \<and> logs (state_of (Stop m os))
                = logs (addLog m (now os) ''Stopping Hugo server...'' ''system'')"
    using Stop_no_process [OF assms, of os] by (simp add: result_defs GetStatus_def)
  have some: "effects_of (Stop m os) = [Kill pid]
            \<and> (procKill os = None \<longrightarrow>
                  err_of (Stop m os) = None
                  \<and> GetStatus (state_of (Stop m os)) = (StatusStopped, [])
                  \<and> logs (state_of (Stop m os))
                      = logs (addLog m (now os) ''Stopping Hugo server...'' ''system''))
            \<and> (\<forall>e. procKill os = Some e \<longrightarrow>
                  err_of (Stop m os) = Some e
                  \<and> GetStatus (state_of (Stop m os)) = GetStatus m
                  \<and> logs (state_of (Stop m os))
                      = logs (addLog (addLog m (now os) ''Stopping Hugo server...'' ''system'')
                                (now os) (''Error stopping Hugo: '' @ e) ''system''))"
    if p: "process_of m = Some pid" for pid
  proof (cases "procKill os")
    case None
    with Stop_killed [OF assms p None] show ?thesis
      by (simp add: result_defs GetStatus_def)
  next
    case (Some e)
    with Stop_kill_failed [OF assms p Some] show ?thesis
      by (simp add: result_defs GetStatus_def)
  qed
  from none some show ?thesis by blast
qed

theorem stop_outcomes_witness:
  "status started \<noteq> StatusStopped \<and> process_of started = Some 4242
   \<and> procKill os_ok = None
   \<and> effects_of (Stop started os_ok) = [Kill 4242]
   \<and> err_of (Stop started os_ok) = None
   \<and> GetStatus (state_of (Stop started os_ok)) = (StatusStopped, [])
   \<and> procKill os_kill_fails = Some ''os: process already finished''
   \<and> effects_of (Stop crashed os_kill_fails) = [Kill 4242]
   \<and> err_of (Stop crashed os_kill_fails) = Some ''os: process already finished''
   \<and> GetStatus (state_of (Stop crashed os_kill_fails)) = (StatusError, ''exit status 1'')
   \<and> status failed_start \<noteq> StatusStopped \<and> process_of failed_start = None
   \<and> GetStatus (state_of (Stop failed_start os_ok)) = (StatusStopped, [])"
proof -
  have s: "status started \<noteq> StatusStopped" by (simp add: started_facts)
  have c: "status crashed \<noteq> StatusStopped" by (simp add: crashed_facts)
  have f: "status failed_start \<noteq> StatusStopped" by (simp add: failed_start_facts)
  have g: "GetStatus crashed = (StatusError, ''exit status 1'')"
    by (simp add: GetStatus_def crashed_facts)
  from s c f g started_facts(3) crashed_facts(3) failed_start_facts(3) os_facts(1,2)
    stop_outcomes [OF s, of os_ok] stop_outcomes [OF c, of os_kill_fails]
    stop_outcomes [OF f, of os_ok]
  show ?thesis by simp
qed

text \<open>
  Claim C5 as stated has \<open>Stop\<close> kill the process in every state whose status is not
  \<open>stopped\<close>. After a launch that failed the status is \<open>error\<close> and there is no process:
  \<open>Stop\<close> asks nothing of the operating system, and succeeds.
\<close>

theorem stop_without_process_counterexample:
  "status failed_start \<noteq> StatusStopped
   \<and> effects_of (Stop failed_start os_ok) = []
   \<and> err_of (Stop failed_start os_ok) = None
   \<and> status (state_of (Stop failed_start os_ok)) = StatusStopped"
proof -
  have f: "status failed_start \<noteq> StatusStopped" by (simp add: failed_start_facts)
  from f Stop_no_process [OF f failed_start_facts(3), of os_ok]
  show ?thesis by (simp add: result_defs)
qed

subsection \<open>Restart\<close>

text \<open>
  Claim C3, as the code has it. \<open>Restart\<close> first appends the system entry "Restarting
  Hugo server...". When the status is \<open>stopped\<close> it then is \<open>Start\<close>, with no delay. When
  the status is not \<open>stopped\<close> it calls \<open>Stop\<close>: if \<open>Stop\<close> fails, \<open>Restart\<close> returns
  what \<open>Stop\<close> returned (its error, its state and its effects), with no delay, no
  launch and no goroutine, so \<open>Start\<close> is not called; if \<open>Stop\<close> succeeds, \<open>Restart\<close>
  sleeps 500 milliseconds and calls \<open>Start\<close> on the state \<open>Stop\<close> left, and returns the
  error and state of \<open>Start\<close>, the effects being those of \<open>Stop\<close>, the sleep, and
  those of \<open>Start\<close>.
\<close>

theorem restart_composition:
  fixes m :: Manager and os :: OS
  defines "m1 \<equiv> addLog m (now os) ''Restarting Hugo server...'' ''system''"
  defines "stopped \<equiv> Stop m1 os"
  defines "restarted \<equiv> Start (state_of stopped) (os\<lparr>now := now os + 500\<rparr>)"
  shows "(status m = StatusStopped \<longrightarrow> Restart m os = Start m1 os)
       \<and> (status m \<noteq> StatusStopped \<longrightarrow>
            (\<forall>e. err_of stopped = Some e \<longrightarrow>
                Restart m os = stopped
                \<and> Sleep 500 \<notin> set (effects_of (Restart m os))
                \<and> (\<forall>c. Launch c \<notin> set (effects_of (Restart m os)))
                \<and> (\<forall>g. Go g \<notin> set (effects_of (Restart m os))))
            \<and> (err_of stopped = None \<longrightarrow>
                err_of (Restart m os) = err_of restarted
                \<and> state_of (Restart m os) = state_of restarted
                \<and> effects_of (Restart m os)
                    = effects_of stopped @ [Sleep 500] @ effects_of restarted))"
proof -
  have kills: "set (effects_of (Stop m' os')) \<subseteq> range Kill" for m' os'
    by (auto simp: Stop_def Let_def result_defs split: option.splits)
  have a: "status m = StatusStopped \<longrightarrow> Restart m os = Start m1 os"
    by (simp add: Restart_def Let_def m1_def)
  have b: "Restart m os = stopped
           \<and> Sleep 500 \<notin> set (effects_of (Restart m os))
           \<and> (\<forall>c. Launch c \<notin> set (effects_of (Restart m os)))
           \<and> (\<forall>g. Go g \<notin> set (effects_of (Restart m os)))"
    if "status m \<noteq> StatusStopped" "err_of stopped = Some e" for e
  proof -
    from that have r: "Restart m os = stopped"
      by (cases "Stop m1 os")
         (simp add: Restart_def Let_def m1_def stopped_def result_defs)
    from kills [of m1 os] show ?thesis
      unfolding r stopped_def by auto
  qed
  have c: "err_of (Restart m os) = err_of restarted
           \<and> state_of (Restart m os) = state_of restarted
           \<and> effects_of (Restart m os) = effects_of stopped @ [Sleep 500] @ effects_of restarted"
    if "status m \<noteq> StatusStopped" "err_of stopped = None"
    using that
    by (cases "Stop m1 os"; cases "Start (state_of (Stop m1 os)) (os\<lparr>now := now os + 500\<rparr>)")
       (simp add: Restart_def Let_def m1_def stopped_def restarted_def result_defs)
  from a b c show ?thesis by blast
qed


lemma Restart_crashed:
  "Restart crashed os_kill_fails
     = Stop (addLog crashed 0 ''Restarting Hugo server...'' ''system'') os_kill_fails"
  "Stop (addLog crashed 0 ''Restarting Hugo server...'' ''system'') os_kill_fails
     = (Some ''os: process already finished'',
        addLog (addLog (addLog crashed 0 ''Restarting Hugo server...'' ''system'') 0
                  ''Stopping Hugo server...'' ''system'') 0
          ''Error stopping Hugo: os: process already finished'' ''system'',
        [Kill 4242])"
proof -
  have st: "status (addLog crashed 0 ''Restarting Hugo server...'' ''system'') \<noteq> StatusStopped"
    by (simp add: crashed_facts)
  have pr: "process_of (addLog crashed 0 ''Restarting Hugo server...'' ''system'') = Some 4242"
    by (simp add: crashed_facts)
  from Stop_kill_failed [OF st pr os_facts(2)]
  show stop: "Stop (addLog crashed 0 ''Restarting Hugo server...'' ''system'') os_kill_fails
     = (Some ''os: process already finished'',
        addLog (addLog (addLog crashed 0 ''Restarting Hugo server...'' ''system'') 0
                  ''Stopping Hugo server...'' ''system'') 0
          ''Error stopping Hugo: os: process already finished'' ''system'',
        [Kill 4242])"
    by (simp add: os_facts)
  show "Restart crashed os_kill_fails
     = Stop (addLog crashed 0 ''Restarting Hugo server...'' ''system'') os_kill_fails"
    unfolding stop by (simp add: Restart_def Let_def os_facts crashed_facts stop)
qed

text \<open>
  Claim C3 as stated has \<open>Restart\<close> wait and call \<open>Start\<close> whatever \<open>Stop\<close> returned.
  After the process has exited with an error, the status is \<open>error\<close> and the kill in
  \<open>Stop\<close> fails, since the process is gone: \<open>Restart\<close> returns that error after the kill
  alone, with no sleep and no launch, and the status is still \<open>error\<close>.
\<close>

theorem restart_after_failed_stop_counterexample:
  "status crashed \<noteq> StatusStopped
   \<and> err_of (Stop (addLog crashed 0 ''Restarting Hugo server...'' ''system'') os_kill_fails)
       = Some ''os: process already finished''
   \<and> err_of (Restart crashed os_kill_fails) = Some ''os: process already finished''
   \<and> effects_of (Restart crashed os_kill_fails) = [Kill 4242]
   \<and> GetStatus (state_of (Restart crashed os_kill_fails)) = (StatusError, ''exit status 1'')"
  by (simp add: Restart_crashed result_defs GetStatus_def crashed_facts)

theorem restart_composition_witness:
  "status fresh_manager = StatusStopped
   \<and> Restart fresh_manager os_ok
       = Start (addLog fresh_manager 0 ''Restarting Hugo server...'' ''system'') os_ok
   \<and> status crashed \<noteq> StatusStopped
   \<and> err_of (Stop (addLog crashed 0 ''Restarting Hugo server...'' ''system'') os_kill_fails)
       = Some ''os: process already finished''
   \<and> Restart crashed os_kill_fails
       = Stop (addLog crashed 0 ''Restarting Hugo server...'' ''system'') os_kill_fails
   \<and> Sleep 500 \<notin> set (effects_of (Restart crashed os_kill_fails))
   \<and> status started \<noteq> StatusStopped
   \<and> err_of (Stop (addLog started 0 ''Restarting Hugo server...'' ''system'') os_ok) = None
   \<and> effects_of (Restart started os_ok)
       = [Kill 4242, Sleep 500] 
         @ effects_of (Start (state_of (Stop (addLog started 0 ''Restarting Hugo server...'' ''system'') os_ok))
                         (os_ok\<lparr>now := 500\<rparr>))"
proof -
  have f: "status fresh_manager = StatusStopped" by (simp add: example_defs)
  have c: "status crashed \<noteq> StatusStopped" by (simp add: crashed_facts)
  have s: "status started \<noteq> StatusStopped" by (simp add: started_facts)
  have ce: "err_of (Stop (addLog crashed 0 ''Restarting Hugo server...'' ''system'') os_kill_fails)
       = Some ''os: process already finished''"
    by (simp add: Restart_crashed(2) result_defs)
  have st: "status (addLog started 0 ''Restarting Hugo server...'' ''system'') \<noteq> StatusStopped"
    by (simp add: started_facts)
  have pr: "process_of (addLog started 0 ''Restarting Hugo server...'' ''system'') = Some 4242"
    by (simp add: started_facts)
  from Stop_killed [OF st pr os_facts(1)]
  have se: "err_of (Stop (addLog started 0 ''Restarting Hugo server...'' ''system'') os_ok) = None"
    and sf: "effects_of (Stop (addLog started 0 ''Restarting Hugo server...'' ''system'') os_ok) = [Kill 4242]"
    by (simp_all add: result_defs)
  have w1: "Restart fresh_manager os_ok
       = Start (addLog fresh_manager 0 ''Restarting Hugo server...'' ''system'') os_ok"
    using restart_composition [of fresh_manager os_ok] f by (simp add: os_facts)
  have w2: "Restart crashed os_kill_fails
       = Stop (addLog crashed 0 ''Restarting Hugo server...'' ''system'') os_kill_fails
     \<and> Sleep 500 \<notin> set (effects_of (Restart crashed os_kill_fails))"
    using restart_composition [of crashed os_kill_fails] c ce by (simp only: os_facts) blast
  have w3: "effects_of (Restart started os_ok)
       = [Kill 4242, Sleep 500] 
         @ effects_of (Start (state_of (Stop (addLog started 0 ''Restarting Hugo server...'' ''system'') os_ok))
                         (os_ok\<lparr>now := 500\<rparr>))"
    using restart_composition [of started os_ok] s se sf by (simp add: os_facts)
  from f c s ce se w1 w2 w3 show ?thesis by blast
qed

subsection \<open>The log buffer\<close>

lemma copy_into_fresh: "length src = n \<Longrightarrow> copy_into (replicate n z) src = src"
  by (simp add: copy_into_def)

lemma GetLogs_eq:
  "GetLogs m limit =
     (if 0 < limit \<and> limit \<le> int (length (logs m))
      then drop (length (logs m) - nat limit) (logs m) else logs m)"
proof (cases "0 < limit \<and> limit \<le> int (length (logs m))")
  case True
  then have n: "nat (int (length (logs m)) - limit) = length (logs m) - nat limit"
    by linarith
  from True have "length (drop (length (logs m) - nat limit) (logs m)) = nat limit"
    by simp linarith
  from copy_into_fresh [OF this] True n show ?thesis
    by (simp add: GetLogs_def Let_def)
next
  case False
  then have "limit \<le> 0 \<or> limit > int (length (logs m))" by linarith
  with False show ?thesis
    by (auto simp: GetLogs_def Let_def copy_into_fresh)
qed

lemma addLogs_maxLogs [simp]: "maxLogs (addLogs m es) = maxLogs m"
  by (induction m es rule: addLogs.induct) simp_all

lemma addLog_logs_entry:
  "logs (addLog m t message logType)
     = drop (Suc (length (logs m)) - maxLogs m) (logs m @ [entry_of (t, message, logType)])"
  by (simp add: addLog_logs entry_of_def)

lemma addLogs_logs:
  "es \<noteq> [] \<Longrightarrow>
   logs (addLogs m es) = drop (length (logs m) + length es - maxLogs m) (logs m @ map entry_of es)"
proof (induction m es rule: addLogs.induct)
  case (1 m)
  then show ?case by simp
next
  case (2 m t message logType rest)
  let ?e = "entry_of (t, message, logType)"
  let ?m' = "addLog m t message logType"
  let ?d = "Suc (length (logs m)) - maxLogs m"
  have l1: "logs ?m' = drop ?d (logs m @ [?e])" by (rule addLog_logs_entry)
  show ?case
  proof (cases "rest = []")
    case True
    with l1 show ?thesis by simp
  next
    case False
    from "2.IH" [OF False]
    have "logs (addLogs ?m' rest)
        = drop (length (logs ?m') + length rest - maxLogs m) (logs ?m' @ map entry_of rest)"
      by simp
    also have "logs ?m' @ map entry_of rest = drop ?d (logs m @ [?e] @ map entry_of rest)"
    proof -
      have "?d - length (logs m @ [?e]) = 0" by simp
      then have "drop ?d ((logs m @ [?e]) @ map entry_of rest)
          = drop ?d (logs m @ [?e]) @ map entry_of rest"
        by (simp only: drop_append drop_0)
      with l1 show ?thesis by simp
    qed
    also have "drop (length (logs ?m') + length rest - maxLogs m) \<dots>
        = drop (length (logs ?m') + length rest - maxLogs m + ?d) (logs m @ [?e] @ map entry_of rest)"
      by (simp only: drop_drop)
    also have "length (logs ?m') + length rest - maxLogs m + ?d
        = length (logs m) + length ((t, message, logType) # rest) - maxLogs m"
      by (simp add: l1)
    finally show ?thesis by simp
  qed
qed

lemma addLog_length_le:
  "length (logs m) \<le> maxLogs m \<Longrightarrow> length (logs (addLog m t message logType)) \<le> maxLogs m"
  by (simp add: addLog_logs)

lemma addLogs_length_le:
  "length (logs m) \<le> maxLogs m \<Longrightarrow> length (logs (addLogs m es)) \<le> maxLogs m"
proof (induction m es rule: addLogs.induct)
  case (1 m)
  then show ?case by simp
next
  case (2 m t message logType rest)
  from "2.prems" have "length (logs (addLog m t message logType)) \<le> maxLogs (addLog m t message logType)"
    by (simp add: addLog_length_le)
  from "2.IH" [OF this] show ?case by simp
qed

text \<open>
  Claim C2. \<open>NewManager\<close> sets the capacity to 1000, and after any run of appends to a
  new manager the buffer holds at most 1000 entries. More generally no append changes the
  capacity, and a buffer within its capacity stays within it. After \<open>N + k\<close> appends with
  \<open>k > 0\<close>, where \<open>N\<close> is the capacity, \<open>GetLogs(0)\<close> returns exactly \<open>N\<close> entries: the
  appended entries without the first \<open>k\<close>, in the order they were appended.
\<close>

theorem log_ring_bound:
  "maxLogs (NewManager dir cfg) = 1000
   \<and> length (logs (addLogs (NewManager dir cfg) es)) \<le> 1000
   \<and> maxLogs (addLogs m es) = maxLogs m
   \<and> (length (logs m) \<le> maxLogs m \<longrightarrow> length (logs (addLogs m es)) \<le> maxLogs m)
   \<and> (length es = maxLogs m + k \<and> 0 < k \<longrightarrow>
        GetLogs (addLogs m es) 0 = map entry_of (drop k es)
        \<and> length (GetLogs (addLogs m es) 0) = maxLogs m)"
proof -
  have a: "maxLogs (NewManager dir cfg) = 1000"
    by (simp add: NewManager_def)
  have "length (logs (NewManager dir cfg)) \<le> maxLogs (NewManager dir cfg)"
    by (simp add: NewManager_def)
  from addLogs_length_le [OF this]
  have b: "length (logs (addLogs (NewManager dir cfg) es)) \<le> 1000"
    by (simp add: a)
  have c: "GetLogs (addLogs m es) 0 = map entry_of (drop k es)
        \<and> length (GetLogs (addLogs m es) 0) = maxLogs m"
    if "length es = maxLogs m + k" "0 < k"
  proof -
    from that have "es \<noteq> []" by auto
    from addLogs_logs [OF this, of m] that
    have "logs (addLogs m es) = map entry_of (drop k es)"
      by (simp add: drop_map)
    with that show ?thesis by (simp add: GetLogs_eq)
  qed
  from a b c addLogs_length_le [of m es] show ?thesis by simp
qed

theorem log_ring_bound_witness:
  "length (map (\<lambda>i. (i, ''line'', ''stdout'')) [0..<1002]) = maxLogs fresh_manager + 2
   \<and> (0::nat) < 2
   \<and> length (logs fresh_manager) \<le> maxLogs fresh_manager
   \<and> length (logs (addLogs fresh_manager (map (\<lambda>i. (i, ''line'', ''stdout'')) [0..<1002]))) \<le> 1000
   \<and> GetLogs (addLogs fresh_manager (map (\<lambda>i. (i, ''line'', ''stdout'')) [0..<1002])) 0
       = map (\<lambda>i. \<lparr>Time = i, Message = ''line'', Type = ''stdout''\<rparr>) [2..<1002]"
proof -
  have n: "maxLogs fresh_manager = 1000" "length (logs fresh_manager) \<le> maxLogs fresh_manager"
    by (simp_all add: example_defs)
  have l: "length (map (\<lambda>i. (i, ''line'', ''stdout'')) [0..<1002]) = maxLogs fresh_manager + 2"
    by (simp add: n)
  have k: "(0::nat) < 2" by simp
  have "drop 2 [0..<1002] = [0 + 2..<1002]"
    by (rule drop_upt)
  then have d: "map entry_of (drop 2 (map (\<lambda>i. (i, ''line'', ''stdout'')) [0..<1002]))
       = map (\<lambda>i. \<lparr>Time = i, Message = ''line'', Type = ''stdout''\<rparr>) [2..<1002]"
    by (simp only: drop_map map_map o_def entry_of_def prod.case add_0)
  have b: "length (logs (addLogs fresh_manager (map (\<lambda>i. (i, ''line'', ''stdout'')) [0..<1002]))) \<le> 1000"
    using log_ring_bound [of "''/site''" default_hugo_config
      "map (\<lambda>i. (i, ''line'', ''stdout'')) [0..<1002]" fresh_manager 2]
    unfolding fresh_manager_def by (rule conjunct1 [OF conjunct2])
  have g: "GetLogs (addLogs fresh_manager (map (\<lambda>i. (i, ''line'', ''stdout'')) [0..<1002])) 0
       = map entry_of (drop 2 (map (\<lambda>i. (i, ''line'', ''stdout'')) [0..<1002]))"
    using log_ring_bound [of "''/site''" default_hugo_config
      "map (\<lambda>i. (i, ''line'', ''stdout'')) [0..<1002]" fresh_manager 2] l k
    by blast
  from l k n(2) b g [unfolded d] show ?thesis by blast
qed

subsection \<open>Delivery to subscribers\<close>

lemma broadcast_map: "broadcast chs entry = map (\<lambda>ch. select_send_default ch entry) chs"
  by (induction chs) simp_all

lemma select_send_default_room:
  "length (chan_buf ch) < chan_cap ch \<Longrightarrow>
   select_send_default ch entry = ch\<lparr>chan_buf := chan_buf ch @ [entry]\<rparr>"
  by (simp add: select_send_default_def chan_send_def)

lemma select_send_default_full:
  "\<not> length (chan_buf ch) < chan_cap ch \<Longrightarrow>
   select_send_default ch entry = ch \<and> chan_send ch entry = None"
  by (simp add: select_send_default_def chan_send_def)

lemma select_send_default_same [simp]:
  "chan_id (select_send_default ch entry) = chan_id ch"
  "chan_cap (select_send_default ch entry) = chan_cap ch"
  by (simp_all add: select_send_default_def chan_send_def)

text \<open>
  Claim C6. Every \<open>addLog\<close> appends its entry to the buffer (which then keeps its last
  \<open>maxLogs\<close> entries, so the entry is the newest one whenever the capacity is positive)
  and then goes through the subscribers registered at that moment, keeping their number,
  order, identities and capacities. A subscriber whose queue has room gets the entry at
  the end of its queue. A subscriber whose queue is full, for which a plain send would
  block, is left exactly as it was: the entry is dropped for it and \<open>addLog\<close> still
  returns, doing nothing more. The channel that \<open>Subscribe\<close> registers has capacity 100
  and starts empty.
\<close>

theorem addLog_delivery:
  fixes m :: Manager and t :: nat and message logType :: string
  defines "entry \<equiv> \<lparr>Time = t, Message = message, Type = logType\<rparr>"
  defines "m' \<equiv> addLog m t message logType"
  shows "logs m' = drop (Suc (length (logs m)) - maxLogs m) (logs m @ [entry])
       \<and> (0 < maxLogs m \<longrightarrow> logs m' \<noteq> [] \<and> last (logs m') = entry)
       \<and> length (subscribers m') = length (subscribers m)
       \<and> (\<forall>i < length (subscribers m).
            chan_id (subscribers m' ! i) = chan_id (subscribers m ! i)
            \<and> chan_cap (subscribers m' ! i) = chan_cap (subscribers m ! i)
            \<and> (length (chan_buf (subscribers m ! i)) < chan_cap (subscribers m ! i) \<longrightarrow>
                 chan_buf (subscribers m' ! i) = chan_buf (subscribers m ! i) @ [entry])
            \<and> (\<not> length (chan_buf (subscribers m ! i)) < chan_cap (subscribers m ! i) \<longrightarrow>
                 chan_send (subscribers m ! i) entry = None
                 \<and> subscribers m' ! i = subscribers m ! i))
       \<and> chan_cap (fst (Subscribe m cid)) = 100
       \<and> chan_buf (fst (Subscribe m cid)) = []
       \<and> subscribers (snd (Subscribe m cid)) = subscribers m @ [fst (Subscribe m cid)]"
proof -
  have a: "logs m' = drop (Suc (length (logs m)) - maxLogs m) (logs m @ [entry])"
    by (simp add: m'_def entry_def addLog_logs)
  have b: "logs m' \<noteq> [] \<and> last (logs m') = entry" if "0 < maxLogs m"
  proof -
    from that have "Suc (length (logs m)) - maxLogs m < length (logs m @ [entry])"
      by simp
    then show ?thesis
      unfolding a by (simp only: last_drop) simp
  qed
  have c: "length (subscribers m') = length (subscribers m)"
    by (simp add: m'_def broadcast_map)
  have d: "chan_id (subscribers m' ! i) = chan_id (subscribers m ! i)
            \<and> chan_cap (subscribers m' ! i) = chan_cap (subscribers m ! i)
            \<and> (length (chan_buf (subscribers m ! i)) < chan_cap (subscribers m ! i) \<longrightarrow>
                 chan_buf (subscribers m' ! i) = chan_buf (subscribers m ! i) @ [entry])
            \<and> (\<not> length (chan_buf (subscribers m ! i)) < chan_cap (subscribers m ! i) \<longrightarrow>
                 chan_send (subscribers m ! i) entry = None
                 \<and> subscribers m' ! i = subscribers m ! i)"
    if "i < length (subscribers m)" for i
  proof -
    from that have "subscribers m' ! i = select_send_default (subscribers m ! i) entry"
      by (simp add: m'_def entry_def broadcast_map)
    then show ?thesis
      using select_send_default_room [of "subscribers m ! i" entry]
        select_send_default_full [of "subscribers m ! i" entry]
      by simp
  qed
  have e: "chan_cap (fst (Subscribe m cid)) = 100 \<and> chan_buf (fst (Subscribe m cid)) = []
       \<and> subscribers (snd (Subscribe m cid)) = subscribers m @ [fst (Subscribe m cid)]"
    by (simp add: Subscribe_def Let_def)
  from a b c d e show ?thesis by blast
qed

lemma watched_subscribers:
  "subscribers watched = [lagging, \<lparr>chan_id = 2, chan_cap = 100, chan_buf = []\<rparr>]"
  by (simp add: watched_def Subscribe_def Let_def)

theorem addLog_delivery_witness:
  "(0::nat) < length (subscribers watched) \<and> 1 < length (subscribers watched)
   \<and> 0 < maxLogs watched
   \<and> last (logs (addLog watched 5 ''built in 12 ms'' ''stdout''))
       = \<lparr>Time = 5, Message = ''built in 12 ms'', Type = ''stdout''\<rparr>
   \<and> \<not> length (chan_buf (subscribers watched ! 0)) < chan_cap (subscribers watched ! 0)
   \<and> subscribers (addLog watched 5 ''built in 12 ms'' ''stdout'') ! 0 = lagging
   \<and> length (chan_buf (subscribers watched ! 1)) < chan_cap (subscribers watched ! 1)
   \<and> chan_buf (subscribers (addLog watched 5 ''built in 12 ms'' ''stdout'') ! 1)
       = [\<lparr>Time = 5, Message = ''built in 12 ms'', Type = ''stdout''\<rparr>]"
proof -
  have l: "(0::nat) < length (subscribers watched)" "1 < length (subscribers watched)"
    by (simp_all add: watched_subscribers)
  have n: "0 < maxLogs watched"
    by (simp add: watched_def Subscribe_def Let_def example_defs)
  have s0: "subscribers watched ! 0 = lagging"
    and s1: "subscribers watched ! 1 = \<lparr>chan_id = 2, chan_cap = 100, chan_buf = []\<rparr>"
    by (simp_all add: watched_subscribers)
  have full: "\<not> length (chan_buf (subscribers watched ! 0)) < chan_cap (subscribers watched ! 0)"
    unfolding s0 by (simp add: lagging_def)
  have room: "length (chan_buf (subscribers watched ! 1)) < chan_cap (subscribers watched ! 1)"
    unfolding s1 by simp
  note w = addLog_delivery [of watched 5 "''built in 12 ms''" "''stdout''" 3]
  from w n have a: "last (logs (addLog watched 5 ''built in 12 ms'' ''stdout''))
       = \<lparr>Time = 5, Message = ''built in 12 ms'', Type = ''stdout''\<rparr>"
    by blast
  from w l(1) full have b: "subscribers (addLog watched 5 ''built in 12 ms'' ''stdout'') ! 0 = lagging"
    unfolding s0 [symmetric] by blast
  from w l(2) room have "chan_buf (subscribers (addLog watched 5 ''built in 12 ms'' ''stdout'') ! 1)
       = chan_buf (subscribers watched ! 1) @ [\<lparr>Time = 5, Message = ''built in 12 ms'', Type = ''stdout''\<rparr>]"
    by blast
  then have c: "chan_buf (subscribers (addLog watched 5 ''built in 12 ms'' ''stdout'') ! 1)
       = [\<lparr>Time = 5, Message = ''built in 12 ms'', Type = ''stdout''\<rparr>]"
    unfolding s1 by simp
  from l n a full b room c show ?thesis by blast
qed

subsection \<open>The buffer in memory\<close>

lemma slice_read_length: "slice_ok h s \<Longrightarrow> length (slice_read h s) = sl_len s"
  by (auto simp: slice_ok_def slice_read_def)

lemma slice_from_read:
  "i \<le> sl_len s \<Longrightarrow> slice_read h (slice_from s i) = drop i (slice_read h s)"
  by (simp add: slice_read_def slice_from_def drop_take add.commute)

lemma slice_from_ok:
  "slice_ok h s \<Longrightarrow> i \<le> sl_len s \<Longrightarrow> slice_ok h (slice_from s i)"
  by (auto simp: slice_ok_def slice_from_def)

lemma slice_append_read:
  assumes "slice_ok h s"
  shows "slice_read (snd (slice_append spare h s e)) (fst (slice_append spare h s e))
           = slice_read h s @ [e]"
proof (cases "sl_len s < sl_cap s")
  case True
  let ?a = "arrays h (sl_array s)"
  from True assms have in_range: "sl_len s < length (drop (sl_off s) ?a)"
    by (auto simp: slice_ok_def)
  have "drop (sl_off s) (?a[sl_off s + sl_len s := e]) = (drop (sl_off s) ?a)[sl_len s := e]"
    by (simp add: drop_update_swap)
  moreover have "take (Suc (sl_len s)) ((drop (sl_off s) ?a)[sl_len s := e])
      = take (sl_len s) (drop (sl_off s) ?a) @ [e]"
    using in_range by (simp add: take_Suc_conv_app_nth)
  ultimately show ?thesis
    using True by (simp add: slice_append_def slice_read_def)
next
  case False
  from assms have "length (slice_read h s) = sl_len s"
    by (rule slice_read_length)
  with False show ?thesis
    by (simp add: slice_append_def slice_read_def)
qed

lemma slice_append_ok:
  assumes "slice_ok h s"
  shows "slice_ok (snd (slice_append spare h s e)) (fst (slice_append spare h s e))"
proof (cases "sl_len s < sl_cap s")
  case True
  with assms show ?thesis
    by (auto simp: slice_append_def slice_ok_def)
next
  case False
  from assms have "length (slice_read h s) = sl_len s"
    by (rule slice_read_length)
  with False show ?thesis
    by (simp add: slice_append_def slice_ok_def)
qed

text \<open>What an append may touch: the array of the slice, and arrays not yet allocated.\<close>

lemma slice_append_frame:
  assumes "a \<noteq> sl_array s" and "a < next_array h"
  shows "arrays (snd (slice_append spare h s e)) a = arrays h a"
  using assms by (simp add: slice_append_def)

lemma slice_append_array:
  "sl_array (fst (slice_append spare h s e)) = sl_array s
   \<or> sl_array (fst (slice_append spare h s e)) = next_array h"
  by (simp add: slice_append_def)

lemma slice_append_next:
  "next_array h \<le> next_array (snd (slice_append spare h s e))"
  by (simp add: slice_append_def)

lemma addLog_mem_read:
  assumes "slice_ok (snd sh) (fst sh)"
  shows "slice_read (snd (addLog_mem spare maxL sh e)) (fst (addLog_mem spare maxL sh e))
           = drop (Suc (sl_len (fst sh)) - maxL) (slice_read (snd sh) (fst sh) @ [e])"
proof -
  obtain s1 h1 where ap: "slice_append spare (snd sh) (fst sh) e = (s1, h1)"
    by (cases "slice_append spare (snd sh) (fst sh) e")
  from slice_append_read [OF assms, of spare e] ap
  have r: "slice_read h1 s1 = slice_read (snd sh) (fst sh) @ [e]" by simp
  from slice_append_ok [OF assms, of spare e] ap have ok: "slice_ok h1 s1" by simp
  from slice_read_length [OF ok] r slice_read_length [OF assms]
  have len: "sl_len s1 = Suc (sl_len (fst sh))" by simp
  show ?thesis
  proof (cases "sl_len s1 > maxL")
    case True
    then have "addLog_mem spare maxL sh e = (slice_from s1 (sl_len s1 - maxL), h1)"
      by (simp add: addLog_mem_def ap)
    with slice_from_read [of "sl_len s1 - maxL" s1 h1] r len show ?thesis by simp
  next
    case False
    then have "addLog_mem spare maxL sh e = (s1, h1)"
      by (simp add: addLog_mem_def ap)
    with r len False show ?thesis by simp
  qed
qed

lemma addLog_mem_ok:
  assumes "slice_ok (snd sh) (fst sh)"
  shows "slice_ok (snd (addLog_mem spare maxL sh e)) (fst (addLog_mem spare maxL sh e))"
proof -
  obtain s1 h1 where ap: "slice_append spare (snd sh) (fst sh) e = (s1, h1)"
    by (cases "slice_append spare (snd sh) (fst sh) e")
  from slice_append_ok [OF assms, of spare e] ap have ok: "slice_ok h1 s1" by simp
  from slice_from_ok [OF ok, of "sl_len s1 - maxL"] ok show ?thesis
    by (simp add: addLog_mem_def ap)
qed

text \<open>An append to the buffer leaves every other allocated array as it is.\<close>

lemma addLog_mem_frame:
  assumes "a \<noteq> sl_array (fst sh)" and "a < next_array (snd sh)"
  shows "arrays (snd (addLog_mem spare maxL sh e)) a = arrays (snd sh) a
         \<and> a \<noteq> sl_array (fst (addLog_mem spare maxL sh e))
         \<and> a < next_array (snd (addLog_mem spare maxL sh e))"
proof -
  obtain s1 h1 where ap: "slice_append spare (snd sh) (fst sh) e = (s1, h1)"
    by (cases "slice_append spare (snd sh) (fst sh) e")
  from slice_append_frame [OF assms, of spare e] ap have f: "arrays h1 a = arrays (snd sh) a"
    by simp
  from slice_append_array [of spare "snd sh" "fst sh" e] ap assms have n: "a \<noteq> sl_array s1"
    by auto
  from slice_append_next [of "snd sh" spare "fst sh" e] ap assms have l: "a < next_array h1"
    by simp
  from f n l show ?thesis
    by (simp add: addLog_mem_def ap slice_from_def)
qed

lemma addLogs_mem_frame:
  assumes "a \<noteq> sl_array (fst sh)" and "a < next_array (snd sh)"
  shows "arrays (snd (addLogs_mem spare maxL sh es)) a = arrays (snd sh) a"
  using assms
proof (induction es arbitrary: sh)
  case Nil
  then show ?case by simp
next
  case (Cons e es)
  from addLog_mem_frame [OF Cons.prems, of spare maxL e]
  have step: "arrays (snd (addLog_mem spare maxL sh e)) a = arrays (snd sh) a"
    "a \<noteq> sl_array (fst (addLog_mem spare maxL sh e))"
    "a < next_array (snd (addLog_mem spare maxL sh e))"
    by simp_all
  from Cons.IH [OF step(2,3)] step(1) show ?case by simp
qed

text \<open>The memory-level appends compute what \<open>addLogs\<close> computes.\<close>

lemma addLogs_mem_refines:
  assumes "slice_ok (snd sh) (fst sh)" and "logs m = slice_read (snd sh) (fst sh)"
  shows "slice_read (snd (addLogs_mem spare (maxLogs m) sh (map entry_of es)))
           (fst (addLogs_mem spare (maxLogs m) sh (map entry_of es)))
         = logs (addLogs m es)"
  using assms
proof (induction m es arbitrary: sh rule: addLogs.induct)
  case (1 m)
  then show ?case by simp
next
  case (2 m t message logType rest)
  let ?sh' = "addLog_mem spare (maxLogs m) sh (entry_of (t, message, logType))"
  let ?m' = "addLog m t message logType"
  from "2.prems" have len: "sl_len (fst sh) = length (logs m)"
    by (simp add: slice_read_length)
  have ok': "slice_ok (snd ?sh') (fst ?sh')"
    using "2.prems"(1) by (rule addLog_mem_ok)
  have rd': "logs ?m' = slice_read (snd ?sh') (fst ?sh')"
    using addLog_mem_read [OF "2.prems"(1), of spare "maxLogs m" "entry_of (t, message, logType)"]
    by (simp add: addLog_logs len "2.prems"(2) entry_of_def)
  from "2.IH" [OF ok' rd'] show ?case by simp
qed


lemma write_at_whole: "length xs = length a \<Longrightarrow> write_at a 0 xs = xs"
  by (simp add: write_at_def)

lemma GetLogs_mem_result:
  assumes "slice_ok h s"
  shows "sl_array (fst (GetLogs_mem (s, h) limit)) = next_array h"
    and "next_array (snd (GetLogs_mem (s, h) limit)) = Suc (next_array h)"
    and "a \<noteq> next_array h \<Longrightarrow> arrays (snd (GetLogs_mem (s, h) limit)) a = arrays h a"
    and "slice_read (snd (GetLogs_mem (s, h) limit)) (fst (GetLogs_mem (s, h) limit))
           = (if 0 < limit \<and> limit \<le> int (sl_len s)
              then drop (sl_len s - nat limit) (slice_read h s) else slice_read h s)"
proof -
  define limit1 where "limit1 = (if limit \<le> 0 \<or> limit > int (sl_len s) then int (sl_len s) else limit)"
  define start where "start = nat (if int (sl_len s) - limit1 < 0 then 0 else int (sl_len s) - limit1)"
  define result where "result = \<lparr>sl_array = next_array h, sl_off = 0, sl_len = nat limit1, sl_cap = nat limit1\<rparr>"
  define h1 where "h1 = h\<lparr>arrays := (arrays h)(next_array h := replicate (nat limit1) zeroEntry),
                          next_array := Suc (next_array h)\<rparr>"
  have g: "GetLogs_mem (s, h) limit = (result, slice_copy h1 result (slice_from s start))"
    by (simp add: GetLogs_mem_def Let_def make_slice_def limit1_def start_def result_def h1_def)
  show "sl_array (fst (GetLogs_mem (s, h) limit)) = next_array h"
    by (simp add: g result_def)
  show "next_array (snd (GetLogs_mem (s, h) limit)) = Suc (next_array h)"
    by (simp add: g slice_copy_def Let_def h1_def)
  show "a \<noteq> next_array h \<Longrightarrow> arrays (snd (GetLogs_mem (s, h) limit)) a = arrays h a"
    by (simp add: g slice_copy_def Let_def h1_def result_def)
  have bounds: "start \<le> sl_len s" "nat limit1 = sl_len s - start"
    by (auto simp: start_def limit1_def)
  from assms have old: "sl_array s \<noteq> next_array h"
    by (simp add: slice_ok_def)
  then have "slice_read h1 s = slice_read h s"
    by (simp add: slice_read_def h1_def)
  with slice_from_read [OF bounds(1), of h1]
  have src: "slice_read h1 (slice_from s start) = drop start (slice_read h s)"
    by simp
  have srclen: "length (drop start (slice_read h s)) = nat limit1"
    using slice_read_length [OF assms] bounds by simp
  have n: "min (sl_len result) (sl_len (slice_from s start)) = nat limit1"
    using bounds by (simp add: result_def slice_from_def)
  have "arrays (slice_copy h1 result (slice_from s start)) (next_array h)
      = write_at (replicate (nat limit1) zeroEntry) 0 (drop start (slice_read h s))"
    using srclen by (simp add: slice_copy_def Let_def n src) (simp add: result_def h1_def)
  also have "\<dots> = drop start (slice_read h s)"
    using srclen by (simp add: write_at_whole)
  finally have "slice_read (slice_copy h1 result (slice_from s start)) result
      = drop start (slice_read h s)"
    using srclen by (simp add: slice_read_def result_def)
  moreover have "drop start (slice_read h s)
      = (if 0 < limit \<and> limit \<le> int (sl_len s)
         then drop (sl_len s - nat limit) (slice_read h s) else slice_read h s)"
  proof (cases "0 < limit \<and> limit \<le> int (sl_len s)")
    case True
    then have "start = sl_len s - nat limit"
      by (auto simp: start_def limit1_def)
    with True show ?thesis by simp
  next
    case False
    then have "start = 0"
      by (auto simp: start_def limit1_def)
    with False show ?thesis by auto
  qed
  ultimately show "slice_read (snd (GetLogs_mem (s, h) limit)) (fst (GetLogs_mem (s, h) limit))
           = (if 0 < limit \<and> limit \<le> int (sl_len s)
              then drop (sl_len s - nat limit) (slice_read h s) else slice_read h s)"
    by (simp add: g)
qed

text \<open>
  Claim C7. For a buffer of \<open>s\<close> entries and any integer \<open>limit\<close>, \<open>GetLogs\<close> returns the
  last \<open>limit\<close> entries when \<open>0 < limit \<le> s\<close> and all \<open>s\<close> entries otherwise, in the
  buffer's order, oldest first. In memory, where the buffer is a slice \<open>s\<close> in order
  that reads as \<open>logs m\<close>: the slice \<open>GetLogs\<close> returns reads as that result; its array is
  not the buffer's array; taking it leaves the buffer as it was; and after any later run
  of appends to the buffer, whatever room the runtime gives a reallocated array, the
  returned slice still reads as it did, while the buffer reads as \<open>addLogs\<close> says.
\<close>

theorem get_logs_snapshot:
  fixes m :: Manager and limit :: int and s :: slice and h :: memory
  defines "snap \<equiv> fst (GetLogs_mem (s, h) limit)"
  defines "h' \<equiv> snd (GetLogs_mem (s, h) limit)"
  defines "later \<equiv> \<lambda>spare es. addLogs_mem spare (maxLogs m) (s, h') (map entry_of es)"
  shows "GetLogs m limit =
           (if 0 < limit \<and> limit \<le> int (length (logs m))
            then drop (length (logs m) - nat limit) (logs m) else logs m)
       \<and> (slice_ok h s \<and> slice_read h s = logs m \<longrightarrow>
            slice_read h' snap = GetLogs m limit
            \<and> sl_array snap \<noteq> sl_array s
            \<and> slice_read h' s = logs m
            \<and> slice_read (snd (later spare es)) snap = GetLogs m limit
            \<and> slice_read (snd (later spare es)) (fst (later spare es)) = logs (addLogs m es))"
proof -
  have mem: "slice_read h' snap = GetLogs m limit
            \<and> sl_array snap \<noteq> sl_array s
            \<and> slice_read h' s = logs m
            \<and> slice_read (snd (later spare es)) snap = GetLogs m limit
            \<and> slice_read (snd (later spare es)) (fst (later spare es)) = logs (addLogs m es)"
    if ok: "slice_ok h s" and rd: "slice_read h s = logs m"
  proof -
    note g = GetLogs_mem_result [OF ok, where limit = limit]
    from ok have alloc: "sl_array s < next_array h" "sl_array s \<noteq> next_array h"
      by (simp_all add: slice_ok_def)
    have len: "sl_len s = length (logs m)"
      using slice_read_length [OF ok] rd by simp
    have a: "slice_read h' snap = GetLogs m limit"
      using g(4) by (simp add: snap_def h'_def GetLogs_eq rd len)
    have b: "sl_array snap \<noteq> sl_array s"
      using g(1) alloc by (simp add: snap_def)
    have same: "arrays h' (sl_array s) = arrays h (sl_array s)"
      using g(3) [OF alloc(2)] by (simp add: h'_def)
    then have c: "slice_read h' s = logs m"
      using rd by (simp add: slice_read_def)
    have ok': "slice_ok (snd (s, h')) (fst (s, h'))"
      using ok same g(2) by (simp add: slice_ok_def h'_def)
    have "sl_array snap \<noteq> sl_array (fst (s, h'))" "sl_array snap < next_array (snd (s, h'))"
      using b g(1,2) by (simp_all add: snap_def h'_def)
    from addLogs_mem_frame [OF this, of spare "maxLogs m" "map entry_of es"]
    have "slice_read (snd (later spare es)) snap = slice_read h' snap"
      by (simp add: later_def slice_read_def)
    with a have d: "slice_read (snd (later spare es)) snap = GetLogs m limit"
      by simp
    from c have "logs m = slice_read (snd (s, h')) (fst (s, h'))" by simp
    from addLogs_mem_refines [OF ok' this, of spare es]
    have e: "slice_read (snd (later spare es)) (fst (later spare es)) = logs (addLogs m es)"
      by (simp add: later_def)
    from a b c d e show ?thesis by blast
  qed
  from GetLogs_eq [of m limit] mem show ?thesis by blast
qed


lemma addLogs_mem_ok:
  "slice_ok (snd sh) (fst sh) \<Longrightarrow>
   slice_ok (snd (addLogs_mem spare maxL sh es)) (fst (addLogs_mem spare maxL sh es))"
proof (induction es arbitrary: sh)
  case Nil
  then show ?case by simp
next
  case (Cons e es)
  from Cons.IH [OF addLog_mem_ok [OF Cons.prems, of spare maxL e]] show ?case by simp
qed

lemma NewManager_mem_ok:
  "slice_ok (snd (NewManager_mem empty_memory)) (fst (NewManager_mem empty_memory))"
  "slice_read (snd (NewManager_mem empty_memory)) (fst (NewManager_mem empty_memory)) = []"
  by (simp_all add: NewManager_mem_def make_slice_def slice_ok_def slice_read_def empty_memory_def)

lemma logged_facts:
  "maxLogs logged = 1000"
  "logs logged = [\<lparr>Time = 1, Message = ''a'', Type = ''stdout''\<rparr>,
                  \<lparr>Time = 2, Message = ''b'', Type = ''stderr''\<rparr>,
                  \<lparr>Time = 3, Message = ''c'', Type = ''stdout''\<rparr>]"
  "logs (addLogs logged [(4, ''d'', ''stdout'')])
     = [\<lparr>Time = 1, Message = ''a'', Type = ''stdout''\<rparr>,
        \<lparr>Time = 2, Message = ''b'', Type = ''stderr''\<rparr>,
        \<lparr>Time = 3, Message = ''c'', Type = ''stdout''\<rparr>,
        \<lparr>Time = 4, Message = ''d'', Type = ''stdout''\<rparr>]"
  by (simp_all add: logged_def three_lines_def addLog_logs example_defs)

lemma logged_mem_facts:
  "slice_ok (snd logged_mem) (fst logged_mem)"
  "slice_read (snd logged_mem) (fst logged_mem) = logs logged"
proof -
  show "slice_ok (snd logged_mem) (fst logged_mem)"
    unfolding logged_mem_def by (rule addLogs_mem_ok [OF NewManager_mem_ok(1)])
  have "logs fresh_manager
      = slice_read (snd (NewManager_mem empty_memory)) (fst (NewManager_mem empty_memory))"
    by (simp add: NewManager_mem_ok(2) example_defs)
  from addLogs_mem_refines [OF NewManager_mem_ok(1) this, of "\<lambda>c. c" three_lines]
  show "slice_read (snd logged_mem) (fst logged_mem) = logs logged"
    by (simp add: logged_mem_def logged_def example_defs)
qed

theorem get_logs_snapshot_witness:
  "slice_ok (snd logged_mem) (fst logged_mem)
   \<and> slice_read (snd logged_mem) (fst logged_mem) = logs logged
   \<and> GetLogs logged 2 = [\<lparr>Time = 2, Message = ''b'', Type = ''stderr''\<rparr>,
                          \<lparr>Time = 3, Message = ''c'', Type = ''stdout''\<rparr>]
   \<and> slice_read (snd snapshot_mem) (fst snapshot_mem) = GetLogs logged 2
   \<and> sl_array (fst snapshot_mem) \<noteq> sl_array (fst logged_mem)
   \<and> slice_read (snd later_mem) (fst snapshot_mem) = GetLogs logged 2
   \<and> slice_read (snd later_mem) (fst later_mem)
       = [\<lparr>Time = 1, Message = ''a'', Type = ''stdout''\<rparr>,
          \<lparr>Time = 2, Message = ''b'', Type = ''stderr''\<rparr>,
          \<lparr>Time = 3, Message = ''c'', Type = ''stdout''\<rparr>,
          \<lparr>Time = 4, Message = ''d'', Type = ''stdout''\<rparr>]"
proof -
  note w = get_logs_snapshot [where m = logged and limit = 2 and s = "fst logged_mem"
      and h = "snd logged_mem" and spare = "\<lambda>c. c" and es = "[(4, ''d'', ''stdout'')]", folded snapshot_mem_def,
      unfolded logged_facts(1), folded later_mem_def]
  from w have v: "GetLogs logged 2 = [\<lparr>Time = 2, Message = ''b'', Type = ''stderr''\<rparr>,
                          \<lparr>Time = 3, Message = ''c'', Type = ''stdout''\<rparr>]"
    by (simp add: logged_facts(2))
  from w logged_mem_facts
  have "slice_read (snd snapshot_mem) (fst snapshot_mem) = GetLogs logged 2
      \<and> sl_array (fst snapshot_mem) \<noteq> sl_array (fst logged_mem)
      \<and> slice_read (snd later_mem) (fst snapshot_mem) = GetLogs logged 2
      \<and> slice_read (snd later_mem) (fst later_mem) = logs (addLogs logged [(4, ''d'', ''stdout'')])"
    by blast
  with v logged_mem_facts logged_facts(3) show ?thesis by simp
qed

end
